theory Spec2Isabelle
  imports Complex_Main "HOL-Library.Char_ord" "HOL-Library.List_Lexorder"
begin

section \<open>Python values\<close>

text \<open>
  The module \<^verbatim>\<open>artemis/general/nested_structures.py\<close> is Python 2 code over
  arbitrarily nested lists, tuples, sets, dicts and \<^verbatim>\<open>OrderedDict\<close>s. The classes it
  dispatches on are modelled by \<open>pytype\<close>; \<open>mro\<close> lists a class with its base classes, so
  that \<^verbatim>\<open>isinstance\<close> sees \<^verbatim>\<open>OrderedDict\<close> as a \<^verbatim>\<open>dict\<close>, \<^verbatim>\<open>bool\<close> as an
  \<^verbatim>\<open>int\<close> and \<^verbatim>\<open>str\<close> as a \<^verbatim>\<open>basestring\<close>.
\<close>

datatype pytype =
    TObject | TType | TNoneType | TInt | TBool | TFloat | TBasestring | TStr
  | TList | TTuple | TSet | TDict | TOrderedDict | TNdarray | TClass string

fun mro :: "pytype \<Rightarrow> pytype list" where
  "mro TObject = [TObject]"
| "mro TBool = [TBool, TInt, TObject]"
| "mro TStr = [TStr, TBasestring, TObject]"
| "mro TOrderedDict = [TOrderedDict, TDict, TObject]"
| "mro t = [t, TObject]"

definition issubclass :: "pytype \<Rightarrow> pytype \<Rightarrow> bool" where
  "issubclass c d = (d \<in> set (mro c))"

text \<open>
  Dictionary keys are integers or strings. \<^verbatim>\<open>sorted(d.keys())\<close> uses Python 2's built-in
  order, in which every number is smaller than every string.
\<close>

datatype pykey = KInt int | KStr string

instantiation pykey :: linorder
begin

fun less_eq_pykey :: "pykey \<Rightarrow> pykey \<Rightarrow> bool" where
  "less_eq_pykey (KInt a) (KInt b) = (a \<le> b)"
| "less_eq_pykey (KInt a) (KStr t) = True"
| "less_eq_pykey (KStr s) (KInt b) = False"
| "less_eq_pykey (KStr s) (KStr t) = (s \<le> t)"

definition less_pykey :: "pykey \<Rightarrow> pykey \<Rightarrow> bool" where
  "less_pykey a b = (a \<le> b \<and> \<not> b \<le> a)"

instance
proof
  fix x y z :: pykey
  show "(x < y) = (x \<le> y \<and> \<not> y \<le> x)" by (simp add: less_pykey_def)
  show "x \<le> x" by (cases x) simp_all
  show "x \<le> y \<Longrightarrow> y \<le> z \<Longrightarrow> x \<le> z" by (cases x; cases y; cases z) auto
  show "x \<le> y \<Longrightarrow> y \<le> x \<Longrightarrow> x = y" by (cases x; cases y) auto
  show "x \<le> y \<or> y \<le> x" by (cases x; cases y) auto
qed

end

text \<open>
  A value is a leaf (\<^verbatim>\<open>None\<close>, a number, a string, a class object) or a container. The
  entry list of a \<open>VDict\<close> or \<open>VODict\<close> and the element list of a \<open>VSet\<close> are in iteration
  order. For an \<^verbatim>\<open>OrderedDict\<close> that is the insertion order; for a plain \<^verbatim>\<open>dict\<close> and a
  \<^verbatim>\<open>set\<close> Python fixes no order, and the functions below never depend on the order of a
  dict they have built themselves other than through \<^verbatim>\<open>sorted\<close> or \<^verbatim>\<open>==\<close>. Floats are
  the finite ones (NaN, which is not equal to itself, stays outside the model).
\<close>

datatype pyval =
    VNone | VBool bool | VInt int | VFloat real | VStr string | VType pytype
  | VList "pyval list" | VTuple "pyval list" | VSet "pyval list"
  | VDict "(pykey \<times> pyval) list" | VODict "(pykey \<times> pyval) list"

fun type_of :: "pyval \<Rightarrow> pytype" where
  "type_of VNone = TNoneType"
| "type_of (VBool b) = TBool"
| "type_of (VInt i) = TInt"
| "type_of (VFloat r) = TFloat"
| "type_of (VStr s) = TStr"
| "type_of (VType t) = TType"
| "type_of (VList xs) = TList"
| "type_of (VTuple xs) = TTuple"
| "type_of (VSet xs) = TSet"
| "type_of (VDict kvs) = TDict"
| "type_of (VODict kvs) = TOrderedDict"

definition isinstance :: "pyval \<Rightarrow> pytype list \<Rightarrow> bool" where
  "isinstance v ts = (\<exists>t \<in> set ts. issubclass (type_of v) t)"

subsection \<open>Python's \<^verbatim>\<open>==\<close>\<close>

text \<open>
  Numbers compare by value across \<^verbatim>\<open>bool\<close>, \<^verbatim>\<open>int\<close> and \<^verbatim>\<open>float\<close>; lists and tuples
  compare element by element; sets compare as sets; a dict equals a dict or an
  \<^verbatim>\<open>OrderedDict\<close> with the same keys and equal values, and two \<^verbatim>\<open>OrderedDict\<close>s are equal
  only when their items are equal in order.
\<close>

fun num_of :: "pyval \<Rightarrow> real option" where
  "num_of (VBool b) = Some (if b then 1 else 0)"
| "num_of (VInt i) = Some (of_int i)"
| "num_of (VFloat r) = Some r"
| "num_of v = None"

function (sequential) py_eq :: "pyval \<Rightarrow> pyval \<Rightarrow> bool"
and py_eq_list :: "pyval list \<Rightarrow> pyval list \<Rightarrow> bool"
and py_in :: "pyval \<Rightarrow> pyval list \<Rightarrow> bool"
and py_subset :: "pyval list \<Rightarrow> pyval list \<Rightarrow> bool"
and py_items_eq :: "(pykey \<times> pyval) list \<Rightarrow> (pykey \<times> pyval) list \<Rightarrow> bool"
and py_items_sub :: "(pykey \<times> pyval) list \<Rightarrow> (pykey \<times> pyval) list \<Rightarrow> bool"
where
  "py_eq VNone b = (b = VNone)"
| "py_eq (VBool x) b = (num_of b = Some (if x then 1 else 0))"
| "py_eq (VInt i) b = (num_of b = Some (of_int i))"
| "py_eq (VFloat r) b = (num_of b = Some r)"
| "py_eq (VStr s) b = (b = VStr s)"
| "py_eq (VType t) b = (b = VType t)"
| "py_eq (VList xs) b = (case b of VList ys \<Rightarrow> py_eq_list xs ys | _ \<Rightarrow> False)"
| "py_eq (VTuple xs) b = (case b of VTuple ys \<Rightarrow> py_eq_list xs ys | _ \<Rightarrow> False)"
| "py_eq (VSet xs) b =
     (case b of VSet ys \<Rightarrow> length xs = length ys \<and> py_subset xs ys | _ \<Rightarrow> False)"
| "py_eq (VDict kvs) b =
     (case b of VDict kws \<Rightarrow> length kvs = length kws \<and> py_items_sub kvs kws
              | VODict kws \<Rightarrow> length kvs = length kws \<and> py_items_sub kvs kws
              | _ \<Rightarrow> False)"
| "py_eq (VODict kvs) b =
     (case b of VDict kws \<Rightarrow> length kvs = length kws \<and> py_items_sub kvs kws
              | VODict kws \<Rightarrow> py_items_eq kvs kws
              | _ \<Rightarrow> False)"
| "py_eq_list [] ys = (ys = [])"
| "py_eq_list (x # xs) ys =
     (case ys of [] \<Rightarrow> False | y # ys' \<Rightarrow> py_eq x y \<and> py_eq_list xs ys')"
| "py_in x [] = False"
| "py_in x (y # ys) = (py_eq x y \<or> py_in x ys)"
| "py_subset [] ys = True"
| "py_subset (x # xs) ys = (py_in x ys \<and> py_subset xs ys)"
| "py_items_eq [] kws = (kws = [])"
| "py_items_eq ((k, x) # kvs) kws =
     (case kws of [] \<Rightarrow> False
      | (k', y) # kws' \<Rightarrow> k = k' \<and> py_eq x y \<and> py_items_eq kvs kws')"
| "py_items_sub [] kws = True"
| "py_items_sub ((k, x) # kvs) kws =
     (case map_of kws k of None \<Rightarrow> False | Some y \<Rightarrow> py_eq x y \<and> py_items_sub kvs kws)"
  by pat_completeness auto
termination
  by (relation "measures
    [case_sum
      (case_sum (\<lambda>p. size (fst p))
        (case_sum (\<lambda>p. size_list size (fst p)) (\<lambda>p. size (fst p))))
      (case_sum (\<lambda>p. size_list size (fst p))
        (case_sum (\<lambda>p. size_list (size_prod (\<lambda>x. 0) size) (fst p))
          (\<lambda>p. size_list (size_prod (\<lambda>x. 0) size) (fst p)))),
     case_sum
      (case_sum (\<lambda>p. size (snd p))
        (case_sum (\<lambda>p. size_list size (snd p)) (\<lambda>p. size_list size (snd p))))
      (case_sum (\<lambda>p. size_list size (snd p))
        (case_sum (\<lambda>p. size_list (size_prod (\<lambda>x. 0) size) (snd p))
          (\<lambda>p. size_list (size_prod (\<lambda>x. 0) size) (snd p))))]")
     auto

text \<open>
  Only hashable values can be elements of a set: leaves and tuples of hashable values.
  \<open>py_set\<close> is the constructor \<^verbatim>\<open>set(iterable)\<close> on hashable elements: an element equal
  to one already present is dropped.
\<close>

fun hashable :: "pyval \<Rightarrow> bool" where
  "hashable (VTuple xs) = list_all hashable xs"
| "hashable (VList xs) = False"
| "hashable (VSet xs) = False"
| "hashable (VDict kvs) = False"
| "hashable (VODict kvs) = False"
| "hashable v = True"

definition set_add :: "pyval list \<Rightarrow> pyval \<Rightarrow> pyval list" where
  "set_add s x = (if py_in x s then s else s @ [x])"

definition py_set :: "pyval list \<Rightarrow> pyval list" where
  "py_set xs = foldl set_add [] xs"

section \<open>The meta object\<close>

text \<open>\<^verbatim>\<open>_primitive_containers = (list, tuple, dict, set)\<close>\<close>

definition primitive_containers :: "pytype list" where
  "primitive_containers = [TList, TTuple, TDict, TSet]"

text \<open>
  \<^verbatim>\<open>get_meta_object(data_object, containers = _primitive_containers)\<close>. The equations
  follow the \<^verbatim>\<open>isinstance\<close> tests of the source: the first three are the branch for
  \<^verbatim>\<open>(list, tuple, set)\<close>, the next two the branch for \<^verbatim>\<open>dict\<close>; the recursive calls of
  the source pass no \<^verbatim>\<open>containers\<close> argument, so they run with the default. A value that
  is an instance of \<open>containers\<close> but of none of the four container classes falls off the
  end of the function, which returns \<^verbatim>\<open>None\<close>.
\<close>

fun get_meta_object :: "pyval \<Rightarrow> pytype list \<Rightarrow> pyval" where
  "get_meta_object (VList xs) containers =
     (if isinstance (VList xs) containers
      then VList (map (\<lambda>x. get_meta_object x primitive_containers) xs)
      else VType TList)"
| "get_meta_object (VTuple xs) containers =
     (if isinstance (VTuple xs) containers
      then VTuple (map (\<lambda>x. get_meta_object x primitive_containers) xs)
      else VType TTuple)"
| "get_meta_object (VSet xs) containers =
     (if isinstance (VSet xs) containers
      then VSet (py_set (map (\<lambda>x. get_meta_object x primitive_containers) xs))
      else VType TSet)"
| "get_meta_object (VDict kvs) containers =
     (if isinstance (VDict kvs) containers
      then VDict (map (\<lambda>kv. (fst kv, get_meta_object (snd kv) primitive_containers)) kvs)
      else VType TDict)"
| "get_meta_object (VODict kvs) containers =
     (if isinstance (VODict kvs) containers
      then VODict (map (\<lambda>kv. (fst kv, get_meta_object (snd kv) primitive_containers)) kvs)
      else VType TOrderedDict)"
| "get_meta_object v containers =
     (if isinstance v containers then VNone else VType (type_of v))"


section \<open>Exceptions\<close>

text \<open>
  One constructor per \<^verbatim>\<open>raise\<close> of the module (and per built-in exception a statement of
  it can raise), with what the message names. The three \<^verbatim>\<open>TypeError\<close>s of
  \<^verbatim>\<open>_fill_meta_object\<close> are told apart by their messages: a leaf whose type differs from
  the meta object's, a data iterable that ran out, and one that had more data than fits.
\<close>

datatype py_error =
    TypeError_type_mismatch pytype pyval
  | TypeError_ran_out pyval
  | TypeError_more_data
  | TypeError_unhashable pytype
  | TypeError_no_match pyval pyval
  | TypeError_concatenate pytype
  | AssertionError
  | AttributeError pytype
  | KeyError pykey
  | Exception_no_consistent_order pyval
  | Exception_cannot_handle pytype
  | Exception_unidentified_container pytype

text \<open>
  A list comprehension over calls that may raise: the first exception ends it.
\<close>

fun collect :: "(py_error + 'a list) list \<Rightarrow> py_error + 'a list" where
  "collect [] = Inr []"
| "collect (r # rs) =
     (case r of Inl e \<Rightarrow> Inl e
      | Inr ys \<Rightarrow> (case collect rs of Inl e \<Rightarrow> Inl e | Inr zs \<Rightarrow> Inr (ys @ zs)))"

text \<open>Sizes of the parts of a container, for the termination proofs below.\<close>

lemma size_elem: "x \<in> set xs \<Longrightarrow> size x < Suc (size_list size xs)"
  by (induction xs) auto

lemma size_item:
  "kv \<in> set kvs \<Longrightarrow> size (snd kv) < Suc (size_list (size_prod (\<lambda>x. 0) size) kvs)"
  by (induction kvs) auto

lemma size_lookup:
  "map_of kvs k = Some x \<Longrightarrow> size x < Suc (size_list (size_prod (\<lambda>x. 0) size) kvs)"
  using size_item [of "(k, x)" kvs] by (auto dest: map_of_SomeD)

section \<open>Leaf values\<close>

text \<open>
  \<^verbatim>\<open>get_leaf_values(data_object, containers = _primitive_containers)\<close>: lists and tuples
  in order, an \<^verbatim>\<open>OrderedDict\<close> in the order of its items, a plain dict by
  \<^verbatim>\<open>sorted(data_object.keys())\<close>, and an exception for every other instance of
  \<open>containers\<close>. As in \<open>get_meta_object\<close>, the recursive calls pass no \<^verbatim>\<open>containers\<close>.
\<close>

function get_leaf_values :: "pyval \<Rightarrow> pytype list \<Rightarrow> py_error + pyval list" where
  "get_leaf_values (VList xs) containers =
     (if isinstance (VList xs) containers
      then collect (map (\<lambda>x. get_leaf_values x primitive_containers) xs)
      else Inr [VList xs])"
| "get_leaf_values (VTuple xs) containers =
     (if isinstance (VTuple xs) containers
      then collect (map (\<lambda>x. get_leaf_values x primitive_containers) xs)
      else Inr [VTuple xs])"
| "get_leaf_values (VODict kvs) containers =
     (if isinstance (VODict kvs) containers
      then collect (map (\<lambda>kv. get_leaf_values (snd kv) primitive_containers) kvs)
      else Inr [VODict kvs])"
| "get_leaf_values (VDict kvs) containers =
     (if isinstance (VDict kvs) containers
      then collect (map (\<lambda>k. case map_of kvs k of
                                 None \<Rightarrow> Inl (KeyError k)
                               | Some x \<Rightarrow> get_leaf_values x primitive_containers)
                        (sort (map fst kvs)))
      else Inr [VDict kvs])"
| "get_leaf_values (VSet xs) containers =
     (if isinstance (VSet xs) containers
      then Inl (Exception_no_consistent_order (VSet xs))
      else Inr [VSet xs])"
| "get_leaf_values VNone containers =
     (if isinstance VNone containers
      then Inl (Exception_no_consistent_order VNone) else Inr [VNone])"
| "get_leaf_values (VBool b) containers =
     (if isinstance (VBool b) containers
      then Inl (Exception_no_consistent_order (VBool b)) else Inr [VBool b])"
| "get_leaf_values (VInt i) containers =
     (if isinstance (VInt i) containers
      then Inl (Exception_no_consistent_order (VInt i)) else Inr [VInt i])"
| "get_leaf_values (VFloat r) containers =
     (if isinstance (VFloat r) containers
      then Inl (Exception_no_consistent_order (VFloat r)) else Inr [VFloat r])"
| "get_leaf_values (VStr s) containers =
     (if isinstance (VStr s) containers
      then Inl (Exception_no_consistent_order (VStr s)) else Inr [VStr s])"
| "get_leaf_values (VType t) containers =
     (if isinstance (VType t) containers
      then Inl (Exception_no_consistent_order (VType t)) else Inr [VType t])"
  by pat_completeness auto
termination
  by (relation "measure (\<lambda>p. size (fst p))") (auto simp: size_elem size_item size_lookup)

section \<open>Filling a meta object\<close>

text \<open>
  \<^verbatim>\<open>_fill_meta_object(meta_object, data_iteratable, assert_fully_used = True,
  check_types = True)\<close>. The iterator is the list of the values it has not yet produced;
  every function returns what it built together with the iterator it leaves behind.
  \<open>fully_used\<close> is the final block of the source: with \<^verbatim>\<open>assert_fully_used\<close>, a further
  \<^verbatim>\<open>next()\<close> must raise \<^verbatim>\<open>StopIteration\<close>.

  \<open>fill_elems\<close>, \<open>fill_items\<close> and \<open>fill_keys\<close> are the three generator expressions of the
  source (over the elements, over \<^verbatim>\<open>iteritems()\<close> of an \<^verbatim>\<open>OrderedDict\<close>, over the sorted
  keys of a dict); each recursive call passes \<^verbatim>\<open>assert_fully_used=False\<close>. \<open>fill_set\<close> is
  the same generator consumed by the \<^verbatim>\<open>set\<close> constructor, which hashes each element as it
  arrives. A \<^verbatim>\<open>StopIteration\<close> of \<^verbatim>\<open>data_iteratable.next()\<close> is caught in the call that
  made it and raised again as a \<^verbatim>\<open>TypeError\<close>.
\<close>

definition fully_used ::
  "bool \<Rightarrow> py_error + pyval \<times> pyval list \<Rightarrow> py_error + pyval \<times> pyval list" where
  "fully_used assert_fully_used r =
     (case r of
        Inl e \<Rightarrow> Inl e
      | Inr (filled_object, it) \<Rightarrow>
          if assert_fully_used
          then (case it of [] \<Rightarrow> Inr (filled_object, []) | x # it' \<Rightarrow> Inl TypeError_more_data)
          else Inr (filled_object, it))"

function (sequential)
  fill_meta_object ::
    "pyval \<Rightarrow> pyval list \<Rightarrow> bool \<Rightarrow> bool \<Rightarrow> py_error + pyval \<times> pyval list"
and fill_elems ::
    "pyval list \<Rightarrow> pyval list \<Rightarrow> bool \<Rightarrow> py_error + pyval list \<times> pyval list"
and fill_set ::
    "pyval list \<Rightarrow> pyval list \<Rightarrow> pyval list \<Rightarrow> bool \<Rightarrow> py_error + pyval list \<times> pyval list"
and fill_items ::
    "(pykey \<times> pyval) list \<Rightarrow> pyval list \<Rightarrow> bool
       \<Rightarrow> py_error + (pykey \<times> pyval) list \<times> pyval list"
and fill_keys ::
    "(pykey \<times> pyval) list \<Rightarrow> pykey list \<Rightarrow> pyval list \<Rightarrow> bool
       \<Rightarrow> py_error + (pykey \<times> pyval) list \<times> pyval list"
where
  "fill_meta_object (VList ms) it assert_fully_used check_types =
     fully_used assert_fully_used
       (case fill_elems ms it check_types of
          Inl e \<Rightarrow> Inl e | Inr (xs, it') \<Rightarrow> Inr (VList xs, it'))"
| "fill_meta_object (VTuple ms) it assert_fully_used check_types =
     fully_used assert_fully_used
       (case fill_elems ms it check_types of
          Inl e \<Rightarrow> Inl e | Inr (xs, it') \<Rightarrow> Inr (VTuple xs, it'))"
| "fill_meta_object (VSet ms) it assert_fully_used check_types =
     fully_used assert_fully_used
       (case fill_set ms [] it check_types of
          Inl e \<Rightarrow> Inl e | Inr (xs, it') \<Rightarrow> Inr (VSet xs, it'))"
| "fill_meta_object (VODict kms) it assert_fully_used check_types =
     fully_used assert_fully_used
       (case fill_items kms it check_types of
          Inl e \<Rightarrow> Inl e | Inr (kvs, it') \<Rightarrow> Inr (VODict kvs, it'))"
| "fill_meta_object (VDict kms) it assert_fully_used check_types =
     fully_used assert_fully_used
       (case fill_keys kms (sort (map fst kms)) it check_types of
          Inl e \<Rightarrow> Inl e | Inr (kvs, it') \<Rightarrow> Inr (VDict kvs, it'))"
| "fill_meta_object meta_object it assert_fully_used check_types =
     fully_used assert_fully_used
       (case it of
          [] \<Rightarrow> Inl (TypeError_ran_out meta_object)
        | next_data # it' \<Rightarrow>
            if check_types \<and> meta_object \<noteq> VType (type_of next_data)
            then Inl (TypeError_type_mismatch (type_of next_data) meta_object)
            else Inr (next_data, it'))"
| "fill_elems [] it check_types = Inr ([], it)"
| "fill_elems (m # ms) it check_types =
     (case fill_meta_object m it False check_types of
        Inl e \<Rightarrow> Inl e
      | Inr (x, it') \<Rightarrow>
          (case fill_elems ms it' check_types of
             Inl e \<Rightarrow> Inl e | Inr (xs, it'') \<Rightarrow> Inr (x # xs, it'')))"
| "fill_set [] acc it check_types = Inr (acc, it)"
| "fill_set (m # ms) acc it check_types =
     (case fill_meta_object m it False check_types of
        Inl e \<Rightarrow> Inl e
      | Inr (x, it') \<Rightarrow>
          if hashable x then fill_set ms (set_add acc x) it' check_types
          else Inl (TypeError_unhashable (type_of x)))"
| "fill_items [] it check_types = Inr ([], it)"
| "fill_items ((k, m) # kms) it check_types =
     (case fill_meta_object m it False check_types of
        Inl e \<Rightarrow> Inl e
      | Inr (x, it') \<Rightarrow>
          (case fill_items kms it' check_types of
             Inl e \<Rightarrow> Inl e | Inr (kvs, it'') \<Rightarrow> Inr ((k, x) # kvs, it'')))"
| "fill_keys kms [] it check_types = Inr ([], it)"
| "fill_keys kms (k # ks) it check_types =
     (case map_of kms k of
        None \<Rightarrow> Inl (KeyError k)
      | Some m \<Rightarrow>
          (case fill_meta_object m it False check_types of
             Inl e \<Rightarrow> Inl e
           | Inr (x, it') \<Rightarrow>
               (case fill_keys kms ks it' check_types of
                  Inl e \<Rightarrow> Inl e | Inr (kvs, it'') \<Rightarrow> Inr ((k, x) # kvs, it''))))"
  by pat_completeness auto
termination
  by (relation "measures
    [case_sum
      (case_sum (\<lambda>p. size (fst p)) (\<lambda>p. size_list size (fst p)))
      (case_sum (\<lambda>p. size_list size (fst p))
        (case_sum (\<lambda>p. size_list (size_prod (\<lambda>x. 0) size) (fst p))
          (\<lambda>p. size_list (size_prod (\<lambda>x. 0) size) (fst p)))),
     case_sum
      (case_sum (\<lambda>p. 0) (\<lambda>p. 0))
      (case_sum (\<lambda>p. 0)
        (case_sum (\<lambda>p. 0) (\<lambda>p. length (fst (snd p)))))]")
     (auto dest: size_lookup)

section \<open>NestedType\<close>

record NestedType =
  meta_object :: pyval

definition from_data :: "pyval \<Rightarrow> pytype list \<Rightarrow> NestedType" where
  "from_data data_object containers =
     \<lparr>meta_object = get_meta_object data_object containers\<rparr>"

definition is_type_for :: "NestedType \<Rightarrow> pyval \<Rightarrow> bool" where
  "is_type_for self data_object =
     py_eq (get_meta_object data_object primitive_containers) (meta_object self)"

definition check_type :: "NestedType \<Rightarrow> pyval \<Rightarrow> py_error + unit" where
  "check_type self data_object =
     (if \<not> is_type_for self data_object
      then Inl (TypeError_no_match
                  (meta_object (from_data data_object primitive_containers)) (meta_object self))
      else Inr ())"



section \<open>Well-formed values\<close>

text \<open>
  What every Python value satisfies and the datatype does not enforce: the keys of a
  dict are distinct, the elements of a set are hashable and pairwise unequal.
\<close>

fun py_distinct :: "pyval list \<Rightarrow> bool" where
  "py_distinct [] = True"
| "py_distinct (x # xs) = (\<not> py_in x xs \<and> py_distinct xs)"

function wf_val :: "pyval \<Rightarrow> bool" where
  "wf_val (VList xs) = list_all wf_val xs"
| "wf_val (VTuple xs) = list_all wf_val xs"
| "wf_val (VSet xs) = (list_all hashable xs \<and> py_distinct xs \<and> list_all wf_val xs)"
| "wf_val (VDict kvs) = (distinct (map fst kvs) \<and> list_all (\<lambda>kv. wf_val (snd kv)) kvs)"
| "wf_val (VODict kvs) = (distinct (map fst kvs) \<and> list_all (\<lambda>kv. wf_val (snd kv)) kvs)"
| "wf_val VNone = True"
| "wf_val (VBool b) = True"
| "wf_val (VInt i) = True"
| "wf_val (VFloat r) = True"
| "wf_val (VStr s) = True"
| "wf_val (VType t) = True"
  by pat_completeness auto
termination
  by (relation "measure size") (auto simp: size_elem size_item)

text \<open>A set somewhere in the containers of a value.\<close>

function has_set :: "pyval \<Rightarrow> bool" where
  "has_set (VSet xs) = True"
| "has_set (VList xs) = list_ex has_set xs"
| "has_set (VTuple xs) = list_ex has_set xs"
| "has_set (VDict kvs) = list_ex (\<lambda>kv. has_set (snd kv)) kvs"
| "has_set (VODict kvs) = list_ex (\<lambda>kv. has_set (snd kv)) kvs"
| "has_set VNone = False"
| "has_set (VBool b) = False"
| "has_set (VInt i) = False"
| "has_set (VFloat r) = False"
| "has_set (VStr s) = False"
| "has_set (VType t) = False"
  by pat_completeness auto
termination
  by (relation "measure size") (auto simp: size_elem size_item)

text \<open>The exception of \<open>get_leaf_values\<close> for a set.\<close>

definition no_order :: "py_error + pyval list \<Rightarrow> bool" where
  "no_order r = (\<exists>s. r = Inl (Exception_no_consistent_order (VSet s)))"

section \<open>Leaf positions of a meta object\<close>

text \<open>
  The leaf positions of a meta object in the order in which \<open>fill_meta_object\<close> visits
  them: depth first, lists, tuples, sets and \<^verbatim>\<open>OrderedDict\<close>s in iteration order, a dict
  by sorted key. \<open>first_failure\<close> walks the leaf positions along the data and gives the
  first position that cannot be filled: the data has run out there, or (with
  \<^verbatim>\<open>check_types\<close>) the type of the value differs from the leaf of the meta object.
\<close>

function schema_leaves :: "pyval \<Rightarrow> pyval list" where
  "schema_leaves (VList ms) = concat (map schema_leaves ms)"
| "schema_leaves (VTuple ms) = concat (map schema_leaves ms)"
| "schema_leaves (VSet ms) = concat (map schema_leaves ms)"
| "schema_leaves (VODict kms) = concat (map (\<lambda>km. schema_leaves (snd km)) kms)"
| "schema_leaves (VDict kms) =
     concat (map (\<lambda>k. case map_of kms k of None \<Rightarrow> [] | Some m \<Rightarrow> schema_leaves m)
                 (sort (map fst kms)))"
| "schema_leaves VNone = [VNone]"
| "schema_leaves (VBool b) = [VBool b]"
| "schema_leaves (VInt i) = [VInt i]"
| "schema_leaves (VFloat r) = [VFloat r]"
| "schema_leaves (VStr s) = [VStr s]"
| "schema_leaves (VType t) = [VType t]"
  by pat_completeness auto
termination
  by (relation "measure size") (auto simp: size_elem size_item size_lookup)

definition num_leaves :: "pyval \<Rightarrow> nat" where
  "num_leaves m = length (schema_leaves m)"

definition leaves_of_keys :: "(pykey \<times> pyval) list \<Rightarrow> pykey list \<Rightarrow> pyval list" where
  "leaves_of_keys kms ks =
     concat (map (\<lambda>k. case map_of kms k of None \<Rightarrow> [] | Some m \<Rightarrow> schema_leaves m) ks)"

text \<open>
  What a call that does not check for remaining data (\<^verbatim>\<open>assert_fully_used=False\<close>) does
  to the iterator: a result leaves the iterator \<open>n\<close> values further, and the exception is
  never the one for remaining data, nor, without \<^verbatim>\<open>check_types\<close>, the one for a type.
\<close>

definition consumes :: "py_error + 'a \<times> pyval list \<Rightarrow> nat \<Rightarrow> pyval list \<Rightarrow> bool \<Rightarrow> bool" where
  "consumes r n it check_types =
     ((\<forall>v it'. r = Inr (v, it') \<longrightarrow> n \<le> length it \<and> it' = drop n it) \<and>
      r \<noteq> Inl TypeError_more_data \<and>
      (\<not> check_types \<longrightarrow> (\<forall>a b. r \<noteq> Inl (TypeError_type_mismatch a b))))"

fun first_failure :: "pyval list \<Rightarrow> pyval list \<Rightarrow> bool \<Rightarrow> py_error option" where
  "first_failure [] it check_types = None"
| "first_failure (t # ts) [] check_types = Some (TypeError_ran_out t)"
| "first_failure (t # ts) (x # it) check_types =
     (if check_types \<and> t \<noteq> VType (type_of x)
      then Some (TypeError_type_mismatch (type_of x) t)
      else first_failure ts it check_types)"

text \<open>A result agrees with \<open>first_failure\<close> over the leaf positions \<open>ts\<close>.\<close>

definition agrees ::
  "py_error + 'a \<times> pyval list \<Rightarrow> pyval list \<Rightarrow> pyval list \<Rightarrow> bool \<Rightarrow> bool" where
  "agrees r ts it check_types =
     (case first_failure ts it check_types of
        Some e \<Rightarrow> r = Inl e
      | None \<Rightarrow> (\<exists>v. r = Inr (v, drop (length ts) it)))"

section \<open>The example of the docstrings\<close>

text \<open>
  \<^verbatim>\<open>[1, 2, {'b': 'x', 'a': (3, 4)}]\<close> and its meta object
  \<^verbatim>\<open>[int, int, {'b': str, 'a': (int, int)}]\<close>.
\<close>

definition example_value :: pyval where
  "example_value =
     VList [VInt 1, VInt 2, VDict [(KStr ''b'', VStr ''x''), (KStr ''a'', VTuple [VInt 3, VInt 4])]]"

definition example_meta :: pyval where
  "example_meta =
     VList [VType TInt, VType TInt,
            VDict [(KStr ''b'', VType TStr), (KStr ''a'', VTuple [VType TInt, VType TInt])]]"

section \<open>Round trip of one value\<close>


section \<open>Mappings and the order of leaves\<close>



section \<open>Shape of a value and of its meta object, in the words of the specification\<close>







section \<open>\<^verbatim>\<open>flatten_nested_object\<close>\<close>

text \<open>
  \<^verbatim>\<open>flatten_nested_object(data_object, containers = _primitive_containers,
  include_classes = False)\<close>. The test \<^verbatim>\<open>data_object in containers\<close> is membership in the
  tuple \<open>containers\<close> (by \<^verbatim>\<open>==\<close>), so \<open>containers\<close> is a list of values here; the default
  holds the four class objects. \<open>directory_listing\<close> is the local \<^verbatim>\<open>OrderedDict\<close>, with
  \<open>setitem\<close> for \<^verbatim>\<open>directory_listing[k] = v\<close>; the function has no \<^verbatim>\<open>return\<close> statement,
  so a call that ends without an exception returns \<^verbatim>\<open>None\<close>. \<open>flatten_elements\<close> and
  \<open>flatten_items\<close> are the two \<^verbatim>\<open>for\<close> loops; the first calls
  \<^verbatim>\<open>flatten_nested_object(data_object)\<close> on the whole object, as the source does.
  \<open>iteritems\<close> is the method call \<^verbatim>\<open>sub_obj.iteritems()\<close>, and \<open>prefix_items\<close> the inner
  loop with its tuple concatenation \<^verbatim>\<open>(i, )+k\<close>.
\<close>

definition default_containers :: "pyval list" where
  "default_containers = map VType primitive_containers"

fun key_val :: "pykey \<Rightarrow> pyval" where
  "key_val (KInt i) = VInt i"
| "key_val (KStr s) = VStr s"

definition setitem :: "(pyval \<times> pyval) list \<Rightarrow> pyval \<Rightarrow> pyval \<Rightarrow> (pyval \<times> pyval) list" where
  "setitem d k v = (if k \<in> fst ` set d then map (\<lambda>kv. if fst kv = k then (k, v) else kv) d
                    else d @ [(k, v)])"

definition iteritems :: "pyval \<Rightarrow> py_error + (pyval \<times> pyval) list" where
  "iteritems obj =
     (case obj of
        VDict kvs \<Rightarrow> Inr (map (\<lambda>kv. (key_val (fst kv), snd kv)) kvs)
      | VODict kvs \<Rightarrow> Inr (map (\<lambda>kv. (key_val (fst kv), snd kv)) kvs)
      | _ \<Rightarrow> Inl (AttributeError (type_of obj)))"

fun prefix_items ::
  "pyval \<Rightarrow> (pyval \<times> pyval) list \<Rightarrow> (pyval \<times> pyval) list
     \<Rightarrow> py_error + (pyval \<times> pyval) list" where
  "prefix_items i [] directory_listing = Inr directory_listing"
| "prefix_items i ((k, v) # kvs) directory_listing =
     (case k of
        VTuple ks \<Rightarrow> prefix_items i kvs (setitem directory_listing (VTuple (i # ks)) v)
      | _ \<Rightarrow> Inl (TypeError_concatenate (type_of k)))"

lemma default_not_sequence:
  "\<not> (py_in v default_containers \<and> isinstance v [TList, TTuple])"
  by (cases v) (simp_all add: default_containers_def primitive_containers_def
      isinstance_def issubclass_def)

lemma dict_items_size:
  "isinstance v [TDict] \<Longrightarrow>
   size_list (size_prod (\<lambda>x. 0) size)
     (case v of VDict kvs \<Rightarrow> kvs | VODict kvs \<Rightarrow> kvs | _ \<Rightarrow> []) < size v"
  by (cases v) (simp_all add: isinstance_def issubclass_def)

function (sequential)
  flatten_nested_object :: "pyval \<Rightarrow> pyval list \<Rightarrow> bool \<Rightarrow> py_error + pyval"
and flatten_elements ::
    "pyval \<Rightarrow> pyval list \<Rightarrow> int \<Rightarrow> (pyval \<times> pyval) list \<Rightarrow> py_error + (pyval \<times> pyval) list"
and flatten_items ::
    "(pykey \<times> pyval) list \<Rightarrow> (pyval \<times> pyval) list \<Rightarrow> py_error + (pyval \<times> pyval) list"
where
  "flatten_nested_object data_object containers include_classes =
     (let directory_listing =
            (if include_classes then [(VStr ''__class__'', VType (type_of data_object))] else [])
      in if py_in data_object containers
         then if isinstance data_object [TList, TTuple]
              then (case flatten_elements data_object
                           (case data_object of VList xs \<Rightarrow> xs | VTuple xs \<Rightarrow> xs | _ \<Rightarrow> [])
                           0 (setitem directory_listing VNone (VType (type_of data_object))) of
                      Inl e \<Rightarrow> Inl e
                    | Inr directory_listing \<Rightarrow> Inr VNone)
              else if isinstance data_object [TDict]
              then (case flatten_items
                           (case data_object of VDict kvs \<Rightarrow> kvs | VODict kvs \<Rightarrow> kvs | _ \<Rightarrow> [])
                           directory_listing of
                      Inl e \<Rightarrow> Inl e
                    | Inr directory_listing \<Rightarrow> Inr VNone)
              else Inl (Exception_unidentified_container (type_of data_object))
         else (let directory_listing = setitem directory_listing (VTuple []) data_object
               in Inr VNone))"
| "flatten_elements data_object [] i directory_listing = Inr directory_listing"
| "flatten_elements data_object (x # xs) i directory_listing =
     (case flatten_nested_object data_object default_containers False of
        Inl e \<Rightarrow> Inl e
      | Inr sub_obj \<Rightarrow>
          (case iteritems sub_obj of
             Inl e \<Rightarrow> Inl e
           | Inr kvs \<Rightarrow>
               (case prefix_items (VInt i) kvs directory_listing of
                  Inl e \<Rightarrow> Inl e
                | Inr directory_listing \<Rightarrow>
                    flatten_elements data_object xs (i + 1) directory_listing)))"
| "flatten_items [] directory_listing = Inr directory_listing"
| "flatten_items ((key, val) # kvs) directory_listing =
     (case flatten_nested_object val default_containers False of
        Inl e \<Rightarrow> Inl e
      | Inr sub_obj \<Rightarrow>
          (case iteritems sub_obj of
             Inl e \<Rightarrow> Inl e
           | Inr kws \<Rightarrow>
               (case prefix_items (key_val key) kws directory_listing of
                  Inl e \<Rightarrow> Inl e
                | Inr directory_listing \<Rightarrow> flatten_items kvs directory_listing)))"
  by pat_completeness auto
termination
  by (relation "measures
    [case_sum
       (\<lambda>p. 2 * size (fst p) +
             (if py_in (fst p) (fst (snd p)) \<and> isinstance (fst p) [TList, TTuple] then 2 else 0))
       (case_sum (\<lambda>p. 2 * size (fst p) + 1)
                 (\<lambda>p. 2 * size_list (size_prod (\<lambda>x. 0) size) (fst p))),
     case_sum (\<lambda>p. 0)
       (case_sum (\<lambda>p. length (fst (snd p))) (\<lambda>p. 0))]")
    (auto simp: default_not_sequence dict_items_size)

section \<open>Properties\<close>

text \<open>
  C9 (recognized kinds honoured at every level). With \<^verbatim>\<open>containers = (list,)\<close> a tuple
  is not a container, so the meta object of \<^verbatim>\<open>[(1, 2)]\<close> should be \<^verbatim>\<open>[tuple]\<close>. The
  recursive call runs with the default containers and breaks the tuple down.
\<close>

theorem get_meta_object_drops_containers:
  "get_meta_object (VList [VTuple [VInt 1, VInt 2]]) [TList]
     = VList [VTuple [VType TInt, VType TInt]]"
  by (simp add: isinstance_def issubclass_def primitive_containers_def)


subsection \<open>The default containers\<close>

lemma isinstance_containers [simp]:
  "isinstance (VList xs) primitive_containers"
  "isinstance (VTuple xs) primitive_containers"
  "isinstance (VSet xs) primitive_containers"
  "isinstance (VDict kvs) primitive_containers"
  "isinstance (VODict kvs) primitive_containers"
  "\<not> isinstance VNone primitive_containers"
  "\<not> isinstance (VBool b) primitive_containers"
  "\<not> isinstance (VInt i) primitive_containers"
  "\<not> isinstance (VFloat r) primitive_containers"
  "\<not> isinstance (VStr s) primitive_containers"
  "\<not> isinstance (VType t) primitive_containers"
  by (simp_all add: isinstance_def issubclass_def primitive_containers_def)


subsection \<open>Leaf extraction and sets\<close>

lemma collect_all_Inr:
  "(\<And>r. r \<in> set rs \<Longrightarrow> \<exists>ls. r = Inr ls) \<Longrightarrow> \<exists>ls. collect rs = Inr ls"
proof (induction rs)
  case Nil
  then show ?case by simp
next
  case (Cons r rs)
  from Cons.prems [of r] obtain ys where "r = Inr ys" by auto
  moreover from Cons obtain zs where "collect rs = Inr zs" by auto
  ultimately show ?case by simp
qed

lemma collect_no_order:
  "(\<And>r. r \<in> set rs \<Longrightarrow> (\<exists>ls. r = Inr ls) \<or> no_order r) \<Longrightarrow>
   \<exists>r \<in> set rs. no_order r \<Longrightarrow> no_order (collect rs)"
proof (induction rs)
  case Nil
  then show ?case by simp
next
  case (Cons r rs)
  show ?case
  proof (cases r)
    case (Inl e)
    with Cons.prems(1) [of r] have "no_order r" by auto
    with Inl show ?thesis by (simp add: no_order_def)
  next
    case (Inr ys)
    with Cons.prems(2) have ex: "\<exists>r \<in> set rs. no_order r" by (auto simp: no_order_def)
    have "no_order (collect rs)" using Cons.IH Cons.prems(1) ex by auto
    with Inr show ?thesis by (auto simp: no_order_def)
  qed
qed

lemma sorted_keys_elem:
  "r \<in> set (map f (sort (map fst kvs))) \<Longrightarrow> \<exists>k x. (k, x) \<in> set kvs \<and> r = f k"
  by auto

lemma leaf_values_sets:
  "wf_val v \<Longrightarrow>
     (has_set v \<longrightarrow> no_order (get_leaf_values v primitive_containers)) \<and>
     (\<not> has_set v \<longrightarrow> (\<exists>ls. get_leaf_values v primitive_containers = Inr ls))"
proof (induction v rule: wf_val.induct)
  case (1 xs)
  let ?rs = "map (\<lambda>x. get_leaf_values x primitive_containers) xs"
  from 1 have each: "\<And>x. x \<in> set xs \<Longrightarrow>
      (has_set x \<longrightarrow> no_order (get_leaf_values x primitive_containers)) \<and>
      (\<not> has_set x \<longrightarrow> (\<exists>ls. get_leaf_values x primitive_containers = Inr ls))"
    by (auto simp: list_all_iff)
  show ?case
  proof (cases "has_set (VList xs)")
    case True
    then have "\<exists>r \<in> set ?rs. no_order r" using each by (auto simp: list_ex_iff)
    moreover have "\<And>r. r \<in> set ?rs \<Longrightarrow> (\<exists>ls. r = Inr ls) \<or> no_order r"
      using each by auto
    ultimately have "no_order (collect ?rs)" by (rule collect_no_order [rotated])
    with True show ?thesis by simp
  next
    case False
    then have "\<And>r. r \<in> set ?rs \<Longrightarrow> \<exists>ls. r = Inr ls"
      using each by (auto simp: list_ex_iff)
    then have "\<exists>ls. collect ?rs = Inr ls" by (rule collect_all_Inr)
    with False show ?thesis by simp
  qed
next
  case (2 xs)
  let ?rs = "map (\<lambda>x. get_leaf_values x primitive_containers) xs"
  from 2 have each: "\<And>x. x \<in> set xs \<Longrightarrow>
      (has_set x \<longrightarrow> no_order (get_leaf_values x primitive_containers)) \<and>
      (\<not> has_set x \<longrightarrow> (\<exists>ls. get_leaf_values x primitive_containers = Inr ls))"
    by (auto simp: list_all_iff)
  show ?case
  proof (cases "has_set (VTuple xs)")
    case True
    then have "\<exists>r \<in> set ?rs. no_order r" using each by (auto simp: list_ex_iff)
    moreover have "\<And>r. r \<in> set ?rs \<Longrightarrow> (\<exists>ls. r = Inr ls) \<or> no_order r"
      using each by auto
    ultimately have "no_order (collect ?rs)" by (rule collect_no_order [rotated])
    with True show ?thesis by simp
  next
    case False
    then have "\<And>r. r \<in> set ?rs \<Longrightarrow> \<exists>ls. r = Inr ls"
      using each by (auto simp: list_ex_iff)
    then have "\<exists>ls. collect ?rs = Inr ls" by (rule collect_all_Inr)
    with False show ?thesis by simp
  qed
next
  case (3 xs)
  then show ?case by (simp add: no_order_def)
next
  case (4 kvs)
  let ?f = "\<lambda>k. case map_of kvs k of None \<Rightarrow> Inl (KeyError k)
                  | Some x \<Rightarrow> get_leaf_values x primitive_containers"
  let ?rs = "map ?f (sort (map fst kvs))"
  from 4 have dist: "distinct (map fst kvs)" by simp
  from 4 have each: "\<And>kv. kv \<in> set kvs \<Longrightarrow>
      (has_set (snd kv) \<longrightarrow> no_order (get_leaf_values (snd kv) primitive_containers)) \<and>
      (\<not> has_set (snd kv) \<longrightarrow> (\<exists>ls. get_leaf_values (snd kv) primitive_containers = Inr ls))"
    by (auto simp: list_all_iff)
  have look: "\<And>k x. (k, x) \<in> set kvs \<Longrightarrow> ?f k = get_leaf_values x primitive_containers"
    using dist by simp
  show ?case
  proof (cases "has_set (VDict kvs)")
    case True
    then obtain k x where kx: "(k, x) \<in> set kvs" "has_set x"
      by (auto simp: list_ex_iff)
    then have "no_order (?f k)" using each [of "(k, x)"] look by simp
    moreover have "k \<in> set (sort (map fst kvs))" using kx(1) by force
    then have "?f k \<in> set ?rs" by (simp only: set_map) (rule imageI)
    ultimately have "\<exists>r \<in> set ?rs. no_order r" by blast
    moreover have "\<And>r. r \<in> set ?rs \<Longrightarrow> (\<exists>ls. r = Inr ls) \<or> no_order r"
    proof -
      fix r assume "r \<in> set ?rs"
      then obtain k x where "(k, x) \<in> set kvs" "r = ?f k"
        using sorted_keys_elem [of r ?f kvs] by blast
      then show "(\<exists>ls. r = Inr ls) \<or> no_order r"
        using each [of "(k, x)"] look by (cases "has_set x") auto
    qed
    ultimately have "no_order (collect ?rs)" by (rule collect_no_order [rotated])
    with True show ?thesis by simp
  next
    case False
    have "\<And>r. r \<in> set ?rs \<Longrightarrow> \<exists>ls. r = Inr ls"
    proof -
      fix r assume "r \<in> set ?rs"
      then obtain k x where kx: "(k, x) \<in> set kvs" "r = ?f k"
        using sorted_keys_elem [of r ?f kvs] by blast
      with False have "\<not> has_set x" by (auto simp: list_ex_iff)
      then show "\<exists>ls. r = Inr ls" using each [of "(k, x)"] look kx by auto
    qed
    then have "\<exists>ls. collect ?rs = Inr ls" by (rule collect_all_Inr)
    with False show ?thesis by simp
  qed
next
  case (5 kvs)
  let ?rs = "map (\<lambda>kv. get_leaf_values (snd kv) primitive_containers) kvs"
  from 5 have each: "\<And>kv. kv \<in> set kvs \<Longrightarrow>
      (has_set (snd kv) \<longrightarrow> no_order (get_leaf_values (snd kv) primitive_containers)) \<and>
      (\<not> has_set (snd kv) \<longrightarrow> (\<exists>ls. get_leaf_values (snd kv) primitive_containers = Inr ls))"
    by (auto simp: list_all_iff)
  show ?case
  proof (cases "has_set (VODict kvs)")
    case True
    then have "\<exists>r \<in> set ?rs. no_order r" using each by (auto simp: list_ex_iff)
    moreover have "\<And>r. r \<in> set ?rs \<Longrightarrow> (\<exists>ls. r = Inr ls) \<or> no_order r"
      using each by auto
    ultimately have "no_order (collect ?rs)" by (rule collect_no_order [rotated])
    with True show ?thesis by simp
  next
    case False
    then have "\<And>r. r \<in> set ?rs \<Longrightarrow> \<exists>ls. r = Inr ls"
      using each by (auto simp: list_ex_iff)
    then have "\<exists>ls. collect ?rs = Inr ls" by (rule collect_all_Inr)
    with False show ?thesis by simp
  qed
qed simp_all

text \<open>
  C6: leaf extraction from a value that is a set, or that holds a set anywhere in its
  lists, tuples and dicts, raises the exception ``Have no way to consistently extract
  leaf values from a ...'' naming a set; no element order is picked.
\<close>

theorem set_extraction_unsupported:
  "wf_val v \<Longrightarrow> has_set v \<Longrightarrow>
     \<exists>s. get_leaf_values v primitive_containers = Inl (Exception_no_consistent_order (VSet s))"
  using leaf_values_sets [of v] by (simp add: no_order_def)

theorem set_extraction_unsupported_witness:
  "wf_val (VList [VInt 1, VDict [(KStr ''a'', VSet [VInt 2])]]) \<and>
   has_set (VList [VInt 1, VDict [(KStr ''a'', VSet [VInt 2])]]) \<and>
   (\<exists>s. get_leaf_values (VList [VInt 1, VDict [(KStr ''a'', VSet [VInt 2])]])
          primitive_containers = Inl (Exception_no_consistent_order (VSet s)))"
  using set_extraction_unsupported [of "VList [VInt 1, VDict [(KStr ''a'', VSet [VInt 2])]]"]
  by simp

subsection \<open>Filling consumes one value per leaf position\<close>

lemma fill_top:
  "fill_meta_object m it assert_fully_used ct = fully_used assert_fully_used (fill_meta_object m it False ct)"
  by (cases m) (simp_all add: fully_used_def split: sum.splits prod.splits)

lemma fill_nested_consumes:
  "consumes (fill_meta_object m it False ct) (length (schema_leaves m)) it ct"
  "consumes (fill_elems ms it ct) (length (concat (map schema_leaves ms))) it ct"
  "consumes (fill_set ms acc it ct) (length (concat (map schema_leaves ms))) it ct"
  "consumes (fill_items kms it ct) (length (concat (map (\<lambda>km. schema_leaves (snd km)) kms))) it ct"
  "consumes (fill_keys kms ks it ct) (length (leaves_of_keys kms ks)) it ct"
proof (induction m it "afu::bool" ct and ms it ct and ms acc it ct and kms it ct and kms ks it ct
       rule: fill_meta_object_fill_elems_fill_set_fill_items_fill_keys.induct)
  case (1 ms it afu ct)
  then show ?case
    by (auto simp: consumes_def fully_used_def split: sum.splits prod.splits)
next
  case (2 ms it afu ct)
  then show ?case
    by (auto simp: consumes_def fully_used_def split: sum.splits prod.splits)
next
  case (3 ms it afu ct)
  then show ?case
    by (auto simp: consumes_def fully_used_def split: sum.splits prod.splits)
next
  case (4 kms it afu ct)
  then show ?case
    by (auto simp: consumes_def fully_used_def split: sum.splits prod.splits)
next
  case (5 kms it afu ct)
  then show ?case
    by (auto simp: consumes_def fully_used_def leaves_of_keys_def split: sum.splits prod.splits)
next
  case (7 it ct)
  then show ?case by (simp add: consumes_def)
next
  case (8 m ms it ct)
  show ?case
  proof (cases "fill_meta_object m it False ct")
    case (Inl e)
    with 8(1) show ?thesis by (auto simp: consumes_def)
  next
    case (Inr p)
    obtain x it' where p: "p = (x, it')" by (cases p)
    from 8(1) Inr p have a: "length (schema_leaves m) \<le> length it"
      "it' = drop (length (schema_leaves m)) it" by (auto simp: consumes_def)
    from 8(2) [OF Inr p [symmetric]] have b: "consumes (fill_elems ms it' ct)
      (length (concat (map schema_leaves ms))) it' ct" by simp
    show ?thesis using Inr p a b
      by (auto simp: consumes_def add.commute split: sum.splits prod.splits)
  qed
next
  case (9 acc it ct)
  then show ?case by (simp add: consumes_def)
next
  case (10 m ms acc it ct)
  show ?case
  proof (cases "fill_meta_object m it False ct")
    case (Inl e)
    with 10(1) show ?thesis by (auto simp: consumes_def)
  next
    case (Inr p)
    obtain x it' where p: "p = (x, it')" by (cases p)
    from 10(1) Inr p have a: "length (schema_leaves m) \<le> length it"
      "it' = drop (length (schema_leaves m)) it" by (auto simp: consumes_def)
    show ?thesis
    proof (cases "hashable x")
      case True
      from 10(2) [OF Inr p [symmetric] True] have b: "consumes (fill_set ms (set_add acc x) it' ct)
        (length (concat (map schema_leaves ms))) it' ct" by simp
      show ?thesis using Inr p a b True
        by (auto simp: consumes_def add.commute split: sum.splits prod.splits)
    next
      case False
      then show ?thesis using Inr p by (simp add: consumes_def)
    qed
  qed
next
  case (11 it ct)
  then show ?case by (simp add: consumes_def)
next
  case (12 k m kms it ct)
  show ?case
  proof (cases "fill_meta_object m it False ct")
    case (Inl e)
    with 12(1) show ?thesis by (auto simp: consumes_def)
  next
    case (Inr p)
    obtain x it' where p: "p = (x, it')" by (cases p)
    from 12(1) Inr p have a: "length (schema_leaves m) \<le> length it"
      "it' = drop (length (schema_leaves m)) it" by (auto simp: consumes_def)
    from 12(2) [OF Inr p [symmetric]] have b: "consumes (fill_items kms it' ct)
      (length (concat (map (\<lambda>km. schema_leaves (snd km)) kms))) it' ct" by simp
    show ?thesis using Inr p a b
      by (auto simp: consumes_def add.commute split: sum.splits prod.splits)
  qed
next
  case (13 kms it ct)
  then show ?case by (simp add: consumes_def leaves_of_keys_def)
next
  case (14 kms k ks it ct)
  show ?case
  proof (cases "map_of kms k")
    case None
    then show ?thesis by (simp add: consumes_def)
  next
    case (Some m)
    show ?thesis
    proof (cases "fill_meta_object m it False ct")
      case (Inl e)
      with 14(1) [OF Some] Some show ?thesis by (auto simp: consumes_def)
    next
      case (Inr p)
      obtain x it' where p: "p = (x, it')" by (cases p)
      from 14(1) [OF Some] Inr p have a: "length (schema_leaves m) \<le> length it"
        "it' = drop (length (schema_leaves m)) it" by (auto simp: consumes_def)
      from 14(2) [OF Some Inr p [symmetric]] have b: "consumes (fill_keys kms ks it' ct)
        (length (leaves_of_keys kms ks)) it' ct" by simp
      show ?thesis using Some Inr p a b
        by (auto simp: consumes_def leaves_of_keys_def add.commute split: sum.splits prod.splits)
    qed
  qed
qed (auto simp: consumes_def fully_used_def split: sum.splits prod.splits list.splits)

lemma first_failure_append:
  "first_failure (ts1 @ ts2) it ct =
     (case first_failure ts1 it ct of
        Some e \<Rightarrow> Some e
      | None \<Rightarrow> first_failure ts2 (drop (length ts1) it) ct)"
  by (induction ts1 it ct rule: first_failure.induct) (auto split: option.splits)

lemma agrees_Nil: "agrees (Inr (v, it)) [] it ct"
  by (simp add: agrees_def)

lemma agrees_bind:
  assumes "agrees r ts1 it ct"
    and "\<And>v. r = Inr (v, drop (length ts1) it) \<Longrightarrow>
           agrees (f v (drop (length ts1) it)) ts2 (drop (length ts1) it) ct"
  shows "agrees (case r of Inl e \<Rightarrow> Inl e | Inr (v, it') \<Rightarrow> f v it') (ts1 @ ts2) it ct"
proof (cases "first_failure ts1 it ct")
  case None
  with assms(1) obtain v where r: "r = Inr (v, drop (length ts1) it)"
    by (auto simp: agrees_def)
  from assms(2) [OF r] show ?thesis using None r
    by (auto simp: agrees_def first_failure_append add.commute split: option.splits)
next
  case (Some e)
  with assms(1) show ?thesis
    by (auto simp: agrees_def first_failure_append)
qed

lemma agrees_map:
  "agrees r ts it ct \<Longrightarrow>
   agrees (case r of Inl e \<Rightarrow> Inl e | Inr (v, it') \<Rightarrow> Inr (g v, it')) ts it ct"
  by (auto simp: agrees_def split: option.splits)

lemma list_all_drop: "list_all P xs \<Longrightarrow> list_all P (drop n xs)"
  by (auto simp: list_all_iff dest: in_set_dropD)

lemma fill_hashable:
  "hashable m \<longrightarrow> list_all hashable it \<longrightarrow>
     (\<forall>x it'. fill_meta_object m it False ct = Inr (x, it') \<longrightarrow> hashable x)"
  "list_all hashable ms \<longrightarrow> list_all hashable it \<longrightarrow>
     (\<forall>xs it'. fill_elems ms it ct = Inr (xs, it') \<longrightarrow> list_all hashable xs)"
  "fill_set ms acc it ct = fill_set ms acc it ct"
  "fill_items kms it ct = fill_items kms it ct"
  "fill_keys kms ks it ct = fill_keys kms ks it ct"
proof (induction m it "afu::bool" ct and ms it ct and ms acc it ct and kms it ct and kms ks it ct
       rule: fill_meta_object_fill_elems_fill_set_fill_items_fill_keys.induct)
  case (2 ms it afu ct)
  then show ?case by (auto simp: fully_used_def split: sum.splits prod.splits)
next
  case (8 m ms it ct)
  show ?case
  proof (intro impI allI)
    fix xs it'
    assume h: "list_all hashable (m # ms)" "list_all hashable it"
      and eq: "fill_elems (m # ms) it ct = Inr (xs, it')"
    from eq obtain x it1 where 1: "fill_meta_object m it False ct = Inr (x, it1)"
      by (auto split: sum.splits prod.splits)
    from eq 1 obtain ys where 2: "fill_elems ms it1 ct = Inr (ys, it')" "xs = x # ys"
      by (auto split: sum.splits prod.splits)
    from fill_nested_consumes(1) [of m it ct] 1 have "it1 = drop (length (schema_leaves m)) it"
      by (auto simp: consumes_def)
    with h(2) have "list_all hashable it1" by (simp add: list_all_drop)
    with 8(2) [OF 1 refl] h(1) 2 have "list_all hashable ys" by auto
    moreover from 8(1) h 1 have "hashable x" by auto
    ultimately show "list_all hashable xs" using 2 by simp
  qed
qed (auto simp: fully_used_def split: list.splits if_splits)

lemma fully_used_False: "fully_used False r = r"
  by (auto simp: fully_used_def split: sum.splits)

lemma agrees_leaf:
  "agrees (case it of [] \<Rightarrow> Inl (TypeError_ran_out m)
           | next_data # it' \<Rightarrow>
               if ct \<and> m \<noteq> VType (type_of next_data)
               then Inl (TypeError_type_mismatch (type_of next_data) m)
               else Inr (next_data, it')) [m] it ct"
  by (cases it) (auto simp: agrees_def)

lemma fill_agrees:
  "wf_val m \<longrightarrow> (has_set m \<longrightarrow> list_all hashable it) \<longrightarrow>
     agrees (fill_meta_object m it False ct) (schema_leaves m) it ct"
  "list_all wf_val ms \<longrightarrow> (list_ex has_set ms \<longrightarrow> list_all hashable it) \<longrightarrow>
     agrees (fill_elems ms it ct) (concat (map schema_leaves ms)) it ct"
  "list_all wf_val ms \<longrightarrow> list_all hashable ms \<longrightarrow> list_all hashable it \<longrightarrow>
     agrees (fill_set ms acc it ct) (concat (map schema_leaves ms)) it ct"
  "list_all (\<lambda>km. wf_val (snd km)) kms \<longrightarrow>
     (list_ex (\<lambda>km. has_set (snd km)) kms \<longrightarrow> list_all hashable it) \<longrightarrow>
     agrees (fill_items kms it ct) (concat (map (\<lambda>km. schema_leaves (snd km)) kms)) it ct"
  "list_all (\<lambda>km. wf_val (snd km)) kms \<longrightarrow>
     (list_ex (\<lambda>km. has_set (snd km)) kms \<longrightarrow> list_all hashable it) \<longrightarrow>
     set ks \<subseteq> fst ` set kms \<longrightarrow>
     agrees (fill_keys kms ks it ct) (leaves_of_keys kms ks) it ct"
proof (induction m it "afu::bool" ct and ms it ct and ms acc it ct and kms it ct and kms ks it ct
       rule: fill_meta_object_fill_elems_fill_set_fill_items_fill_keys.induct)
  case (1 ms it afu ct)
  show ?case
  proof (intro impI)
    assume "wf_val (VList ms)" "has_set (VList ms) \<longrightarrow> list_all hashable it"
    with 1 have "agrees (fill_elems ms it ct) (concat (map schema_leaves ms)) it ct" by simp
    from agrees_map [OF this, of VList] show
      "agrees (fill_meta_object (VList ms) it False ct) (schema_leaves (VList ms)) it ct"
      by (simp add: fully_used_False)
  qed
next
  case (2 ms it afu ct)
  show ?case
  proof (intro impI)
    assume "wf_val (VTuple ms)" "has_set (VTuple ms) \<longrightarrow> list_all hashable it"
    with 2 have "agrees (fill_elems ms it ct) (concat (map schema_leaves ms)) it ct" by simp
    from agrees_map [OF this, of VTuple] show
      "agrees (fill_meta_object (VTuple ms) it False ct) (schema_leaves (VTuple ms)) it ct"
      by (simp add: fully_used_False)
  qed
next
  case (3 ms it afu ct)
  show ?case
  proof (intro impI)
    assume "wf_val (VSet ms)" "has_set (VSet ms) \<longrightarrow> list_all hashable it"
    with 3 have "agrees (fill_set ms [] it ct) (concat (map schema_leaves ms)) it ct" by simp
    from agrees_map [OF this, of VSet] show
      "agrees (fill_meta_object (VSet ms) it False ct) (schema_leaves (VSet ms)) it ct"
      by (simp add: fully_used_False)
  qed
next
  case (4 kms it afu ct)
  show ?case
  proof (intro impI)
    assume "wf_val (VODict kms)" "has_set (VODict kms) \<longrightarrow> list_all hashable it"
    with 4 have "agrees (fill_items kms it ct)
      (concat (map (\<lambda>km. schema_leaves (snd km)) kms)) it ct" by simp
    from agrees_map [OF this, of VODict] show
      "agrees (fill_meta_object (VODict kms) it False ct) (schema_leaves (VODict kms)) it ct"
      by (simp add: fully_used_False)
  qed
next
  case (5 kms it afu ct)
  show ?case
  proof (intro impI)
    assume "wf_val (VDict kms)" "has_set (VDict kms) \<longrightarrow> list_all hashable it"
    with 5 have "agrees (fill_keys kms (sort (map fst kms)) it ct)
      (leaves_of_keys kms (sort (map fst kms))) it ct" by simp
    from agrees_map [OF this, of VDict] show
      "agrees (fill_meta_object (VDict kms) it False ct) (schema_leaves (VDict kms)) it ct"
      by (simp add: fully_used_False leaves_of_keys_def)
  qed
next
  case (7 it ct)
  show ?case by (simp add: agrees_Nil)
next
  case (8 m ms it ct)
  show ?case
  proof (intro impI)
    assume wf: "list_all wf_val (m # ms)"
      and hs: "list_ex has_set (m # ms) \<longrightarrow> list_all hashable it"
    let ?n = "length (schema_leaves m)"
    let ?f = "\<lambda>x it'. case fill_elems ms it' ct of
                Inl e \<Rightarrow> Inl e | Inr (xs, it'') \<Rightarrow> Inr (x # xs, it'')"
    have a: "agrees (fill_meta_object m it False ct) (schema_leaves m) it ct"
      using 8(1) wf hs by simp
    have b: "agrees (?f x (drop ?n it)) (concat (map schema_leaves ms)) (drop ?n it) ct"
      if r: "fill_meta_object m it False ct = Inr (x, drop ?n it)" for x
    proof -
      from hs have "list_ex has_set ms \<longrightarrow> list_all hashable (drop ?n it)"
        by (simp add: list_all_drop)
      with 8(2) [OF r refl] wf have "agrees (fill_elems ms (drop ?n it) ct)
        (concat (map schema_leaves ms)) (drop ?n it) ct" by simp
      from agrees_map [OF this, of "(#) x"] show ?thesis .
    qed
    from agrees_bind [of "fill_meta_object m it False ct" "schema_leaves m" it ct ?f
        "concat (map schema_leaves ms)", OF a b]
    show "agrees (fill_elems (m # ms) it ct) (concat (map schema_leaves (m # ms))) it ct"
      by simp
  qed
next
  case (9 acc it ct)
  show ?case by (simp add: agrees_Nil)
next
  case (10 m ms acc it ct)
  show ?case
  proof (intro impI)
    assume wf: "list_all wf_val (m # ms)"
      and hm: "list_all hashable (m # ms)"
      and hs: "list_all hashable it"
    let ?n = "length (schema_leaves m)"
    let ?f = "\<lambda>x it'. if hashable x then fill_set ms (set_add acc x) it' ct
                else Inl (TypeError_unhashable (type_of x))"
    have a: "agrees (fill_meta_object m it False ct) (schema_leaves m) it ct"
      using 10(1) wf hs by simp
    have b: "agrees (?f x (drop ?n it)) (concat (map schema_leaves ms)) (drop ?n it) ct"
      if r: "fill_meta_object m it False ct = Inr (x, drop ?n it)" for x
    proof -
      from fill_hashable(1) [of m it ct] hm hs r have hx: "hashable x" by simp
      from hs have "list_all hashable (drop ?n it)" by (simp add: list_all_drop)
      with 10(2) [OF r refl hx] wf hm have "agrees (fill_set ms (set_add acc x) (drop ?n it) ct)
        (concat (map schema_leaves ms)) (drop ?n it) ct" by simp
      with hx show ?thesis by simp
    qed
    from agrees_bind [of "fill_meta_object m it False ct" "schema_leaves m" it ct ?f
        "concat (map schema_leaves ms)", OF a b]
    show "agrees (fill_set (m # ms) acc it ct) (concat (map schema_leaves (m # ms))) it ct"
      by simp
  qed
next
  case (11 it ct)
  show ?case by (simp add: agrees_Nil)
next
  case (12 k m kms it ct)
  show ?case
  proof (intro impI)
    assume wf: "list_all (\<lambda>km. wf_val (snd km)) ((k, m) # kms)"
      and hs: "list_ex (\<lambda>km. has_set (snd km)) ((k, m) # kms) \<longrightarrow> list_all hashable it"
    let ?n = "length (schema_leaves m)"
    let ?ts = "concat (map (\<lambda>km. schema_leaves (snd km)) kms)"
    let ?f = "\<lambda>x it'. case fill_items kms it' ct of
                Inl e \<Rightarrow> Inl e | Inr (kvs, it'') \<Rightarrow> Inr ((k, x) # kvs, it'')"
    have a: "agrees (fill_meta_object m it False ct) (schema_leaves m) it ct"
      using 12(1) wf hs by simp
    have b: "agrees (?f x (drop ?n it)) ?ts (drop ?n it) ct"
      if r: "fill_meta_object m it False ct = Inr (x, drop ?n it)" for x
    proof -
      from hs have "list_ex (\<lambda>km. has_set (snd km)) kms \<longrightarrow> list_all hashable (drop ?n it)"
        by (simp add: list_all_drop)
      with 12(2) [OF r refl] wf have "agrees (fill_items kms (drop ?n it) ct) ?ts (drop ?n it) ct"
        by simp
      from agrees_map [OF this, of "(#) (k, x)"] show ?thesis .
    qed
    from agrees_bind [of "fill_meta_object m it False ct" "schema_leaves m" it ct ?f ?ts, OF a b]
    show "agrees (fill_items ((k, m) # kms) it ct)
      (concat (map (\<lambda>km. schema_leaves (snd km)) ((k, m) # kms))) it ct"
      by simp
  qed
next
  case (13 kms it ct)
  show ?case by (simp add: agrees_Nil leaves_of_keys_def)
next
  case (14 kms k ks it ct)
  show ?case
  proof (intro impI)
    assume wf: "list_all (\<lambda>km. wf_val (snd km)) kms"
      and hs: "list_ex (\<lambda>km. has_set (snd km)) kms \<longrightarrow> list_all hashable it"
      and ks: "set (k # ks) \<subseteq> fst ` set kms"
    from ks obtain m where m: "map_of kms k = Some m"
      by (cases "map_of kms k") (auto simp: map_of_eq_None_iff)
    then have mem: "(k, m) \<in> set kms" by (rule map_of_SomeD)
    with wf have wfm: "wf_val m" by (auto simp: list_all_iff)
    from mem hs have hsm: "has_set m \<longrightarrow> list_all hashable it" by (force simp: list_ex_iff)
    let ?n = "length (schema_leaves m)"
    let ?f = "\<lambda>x it'. case fill_keys kms ks it' ct of
                Inl e \<Rightarrow> Inl e | Inr (kvs, it'') \<Rightarrow> Inr ((k, x) # kvs, it'')"
    have a: "agrees (fill_meta_object m it False ct) (schema_leaves m) it ct"
      using 14(1) [OF m] wfm hsm by simp
    have b: "agrees (?f x (drop ?n it)) (leaves_of_keys kms ks) (drop ?n it) ct"
      if r: "fill_meta_object m it False ct = Inr (x, drop ?n it)" for x
    proof -
      from hs have "list_ex (\<lambda>km. has_set (snd km)) kms \<longrightarrow> list_all hashable (drop ?n it)"
        by (simp add: list_all_drop)
      with 14(2) [OF m r refl] wf ks have "agrees (fill_keys kms ks (drop ?n it) ct)
        (leaves_of_keys kms ks) (drop ?n it) ct" by simp
      from agrees_map [OF this, of "(#) (k, x)"] show ?thesis .
    qed
    from agrees_bind [of "fill_meta_object m it False ct" "schema_leaves m" it ct ?f
        "leaves_of_keys kms ks", OF a b]
    show "agrees (fill_keys kms (k # ks) it ct) (leaves_of_keys kms (k # ks)) it ct"
      using m by (simp add: leaves_of_keys_def)
  qed
qed (simp_all add: fully_used_False agrees_leaf)

subsection \<open>The first leaf position that cannot be filled\<close>

lemma first_failure_ran_out:
  "length it < length ts \<Longrightarrow>
   (ct \<longrightarrow> take (length it) ts = map (\<lambda>x. VType (type_of x)) it) \<Longrightarrow>
   first_failure ts it ct = Some (TypeError_ran_out (ts ! length it))"
  by (induction ts it ct rule: first_failure.induct) auto

lemma first_failure_mismatch:
  "j < length ts \<Longrightarrow> j < length it \<Longrightarrow>
   take j ts = map (\<lambda>x. VType (type_of x)) (take j it) \<Longrightarrow>
   ts ! j \<noteq> VType (type_of (it ! j)) \<Longrightarrow>
   first_failure ts it True = Some (TypeError_type_mismatch (type_of (it ! j)) (ts ! j))"
proof (induction ts it "True" arbitrary: j rule: first_failure.induct)
  case (3 t ts x it)
  show ?case
  proof (cases j)
    case 0
    with 3 show ?thesis by simp
  next
    case (Suc j')
    with 3(1) [of j'] 3(2,3,4,5) show ?thesis by simp
  qed
qed simp_all

lemma fully_used_Inl: "fully_used afu (Inl e) = Inl e"
  by (simp add: fully_used_def)

lemma fill_fails_as_first_failure:
  assumes "wf_val m" "has_set m \<longrightarrow> list_all hashable it"
    and "first_failure (schema_leaves m) it ct = Some e"
  shows "fill_meta_object m it afu ct = Inl e"
proof -
  from fill_agrees(1) [of m it ct] assms have "fill_meta_object m it False ct = Inl e"
    by (simp add: agrees_def)
  then show ?thesis using fill_top [of m it afu ct] by (simp add: fully_used_Inl)
qed

text \<open>
  C4 (leaf count of \<open>fill_meta_object\<close>). A call with \<^verbatim>\<open>assert_fully_used=False\<close>, as
  every recursive call is, that returns has taken exactly one value per leaf position
  from the iterator and leaves the rest; it never raises the exception for remaining
  data. The outermost call (\<^verbatim>\<open>assert_fully_used=True\<close>) returns the same object exactly
  when nothing remains, raises ``had more data than could fit'' when something does,
  and so returns only when the number of values is the number of leaf positions. When
  the values run out (every value before that point having passed the type check, if
  there is one), the call raises ``ran out before the object ... could be filled'',
  naming the leaf position, in depth-first order, for which no value was left.
\<close>

theorem fill_leaf_count:
  "(\<forall>v it'. fill_meta_object m it False ct = Inr (v, it') \<longrightarrow>
       num_leaves m \<le> length it \<and> it' = drop (num_leaves m) it \<and>
       fill_meta_object m it True ct =
         (if length it = num_leaves m then Inr (v, []) else Inl TypeError_more_data)) \<and>
   fill_meta_object m it False ct \<noteq> Inl TypeError_more_data \<and>
   (\<forall>e. fill_meta_object m it False ct = Inl e \<longrightarrow> fill_meta_object m it True ct = Inl e) \<and>
   (\<forall>v it'. fill_meta_object m it True ct = Inr (v, it') \<longrightarrow>
       length it = num_leaves m \<and> it' = []) \<and>
   (wf_val m \<and> (has_set m \<longrightarrow> list_all hashable it) \<and> length it < num_leaves m \<and>
    (ct \<longrightarrow> take (length it) (schema_leaves m) = map (\<lambda>x. VType (type_of x)) it) \<longrightarrow>
      fill_meta_object m it afu ct = Inl (TypeError_ran_out (schema_leaves m ! length it)))"
proof -
  note c = fill_nested_consumes(1) [of m it ct, unfolded consumes_def, folded num_leaves_def]
  note top = fill_top [of m it True ct]
  have 1: "num_leaves m \<le> length it \<and> it' = drop (num_leaves m) it \<and>
       fill_meta_object m it True ct =
         (if length it = num_leaves m then Inr (v, []) else Inl TypeError_more_data)"
    if r: "fill_meta_object m it False ct = Inr (v, it')" for v it'
  proof -
    from c r have a: "num_leaves m \<le> length it" "it' = drop (num_leaves m) it" by auto
    then have e: "it' = [] \<longleftrightarrow> length it = num_leaves m" by auto
    from top r have "fill_meta_object m it True ct =
        (case it' of [] \<Rightarrow> Inr (v, []) | x # it'' \<Rightarrow> Inl TypeError_more_data)"
      by (simp add: fully_used_def)
    then have "fill_meta_object m it True ct =
        (if it' = [] then Inr (v, []) else Inl TypeError_more_data)"
      by (cases it') simp_all
    with e have "fill_meta_object m it True ct =
        (if length it = num_leaves m then Inr (v, []) else Inl TypeError_more_data)"
      by simp
    with a show ?thesis by blast
  qed
  have 2: "fill_meta_object m it False ct \<noteq> Inl TypeError_more_data" using c by simp
  have 3: "fill_meta_object m it True ct = Inl e"
    if "fill_meta_object m it False ct = Inl e" for e
    using top that by (simp add: fully_used_Inl)
  have 4: "length it = num_leaves m \<and> it' = []"
    if r: "fill_meta_object m it True ct = Inr (v, it')" for v it'
  proof (cases "fill_meta_object m it False ct")
    case (Inl e)
    with 3 r show ?thesis by simp
  next
    case (Inr p)
    obtain w it0 where p: "p = (w, it0)" by (cases p)
    from 1 [of w it0] Inr p r show ?thesis by (auto split: if_splits)
  qed
  have 5: "fill_meta_object m it afu ct = Inl (TypeError_ran_out (schema_leaves m ! length it))"
    if "wf_val m" "has_set m \<longrightarrow> list_all hashable it" "length it < num_leaves m"
      "ct \<longrightarrow> take (length it) (schema_leaves m) = map (\<lambda>x. VType (type_of x)) it"
    using that fill_fails_as_first_failure [of m it ct _ afu]
      first_failure_ran_out [of it "schema_leaves m" ct]
    by (simp add: num_leaves_def)
  from 1 2 3 4 5 show ?thesis by blast
qed

text \<open>
  C5 (type check of \<open>fill_meta_object\<close>). With \<^verbatim>\<open>check_types\<close>, the first value whose
  type is not the leaf of the meta object at its position makes the call raise the
  \<^verbatim>\<open>TypeError\<close> that names the type of the value and the leaf of the meta object;
  without \<^verbatim>\<open>check_types\<close> that exception is never raised.
\<close>

theorem fill_check_types:
  "(wf_val m \<and> (has_set m \<longrightarrow> list_all hashable it) \<and>
    j < num_leaves m \<and> j < length it \<and>
    take j (schema_leaves m) = map (\<lambda>x. VType (type_of x)) (take j it) \<and>
    schema_leaves m ! j \<noteq> VType (type_of (it ! j)) \<longrightarrow>
      fill_meta_object m it afu True
        = Inl (TypeError_type_mismatch (type_of (it ! j)) (schema_leaves m ! j))) \<and>
   (\<forall>a b. fill_meta_object m it afu False \<noteq> Inl (TypeError_type_mismatch a b))"
proof -
  have 1: "fill_meta_object m it afu True
        = Inl (TypeError_type_mismatch (type_of (it ! j)) (schema_leaves m ! j))"
    if "wf_val m" "has_set m \<longrightarrow> list_all hashable it" "j < num_leaves m" "j < length it"
      "take j (schema_leaves m) = map (\<lambda>x. VType (type_of x)) (take j it)"
      "schema_leaves m ! j \<noteq> VType (type_of (it ! j))"
    using that fill_fails_as_first_failure [of m it True _ afu]
      first_failure_mismatch [of j "schema_leaves m" it]
    by (simp add: num_leaves_def)
  have 2: "fill_meta_object m it afu False \<noteq> Inl (TypeError_type_mismatch a b)" for a b
  proof
    assume a: "fill_meta_object m it afu False = Inl (TypeError_type_mismatch a b)"
    from fill_nested_consumes(1) [of m it False]
    have n: "fill_meta_object m it False False \<noteq> Inl (TypeError_type_mismatch a b)"
      by (simp add: consumes_def)
    from a fill_top [of m it afu False] n show False
      by (auto simp: fully_used_def split: sum.splits prod.splits if_splits list.splits)
  qed
  from 1 2 show ?thesis by blast
qed


subsection \<open>The example\<close>

lemma example_meta_leaves:
  "schema_leaves example_meta = [VType TInt, VType TInt, VType TInt, VType TInt, VType TStr]"
  by (simp add: example_meta_def)

lemma example_meta_wf: "wf_val example_meta" "\<not> has_set example_meta"
  by (simp_all add: example_meta_def)

theorem fill_leaf_count_witness:
  "fill_meta_object example_meta [VInt 9, VInt 9, VInt 9, VInt 9, VStr ''z'', VInt 0] False True
     = Inr (VList [VInt 9, VInt 9,
                   VDict [(KStr ''a'', VTuple [VInt 9, VInt 9]), (KStr ''b'', VStr ''z'')]],
            [VInt 0]) \<and>
   fill_meta_object example_meta [VInt 9, VInt 9, VInt 9, VInt 9, VStr ''z'', VInt 0] True True
     = Inl TypeError_more_data \<and>
   fill_meta_object example_meta [VInt 9, VInt 9, VInt 9, VInt 9, VStr ''z''] True True
     = Inr (VList [VInt 9, VInt 9,
                   VDict [(KStr ''a'', VTuple [VInt 9, VInt 9]), (KStr ''b'', VStr ''z'')]],
            []) \<and>
   wf_val example_meta \<and> \<not> has_set example_meta \<and> num_leaves example_meta = 5 \<and>
   fill_meta_object example_meta [VInt 9, VInt 9, VInt 9] True True
     = Inl (TypeError_ran_out (VType TInt))"
  using fill_leaf_count [of example_meta "[VInt 9, VInt 9, VInt 9, VInt 9, VStr ''z'', VInt 0]" True True]
    fill_leaf_count [of example_meta "[VInt 9, VInt 9, VInt 9, VInt 9, VStr ''z'']" True True]
    fill_leaf_count [of example_meta "[VInt 9, VInt 9, VInt 9]" True True]
  by (simp add: example_meta_leaves example_meta_wf num_leaves_def)
    (simp add: example_meta_def fully_used_def)

theorem fill_check_types_witness:
  "wf_val example_meta \<and> \<not> has_set example_meta \<and> 4 < num_leaves example_meta \<and>
   take 4 (schema_leaves example_meta) = [VType TInt, VType TInt, VType TInt, VType TInt] \<and>
   schema_leaves example_meta ! 4 = VType TStr \<and>
   fill_meta_object example_meta [VInt 9, VInt 9, VInt 9, VInt 9, VInt 9] True True
     = Inl (TypeError_type_mismatch TInt (VType TStr)) \<and>
   fill_meta_object example_meta [VInt 9, VInt 9, VInt 9, VInt 9, VInt 9] True False
     = Inr (VList [VInt 9, VInt 9,
                   VDict [(KStr ''a'', VTuple [VInt 9, VInt 9]), (KStr ''b'', VInt 9)]],
            [])"
  using fill_check_types [of example_meta "[VInt 9, VInt 9, VInt 9, VInt 9, VInt 9]" 4 True]
  by (simp add: example_meta_leaves example_meta_wf num_leaves_def)
    (simp add: example_meta_def fully_used_def)

subsection \<open>Python equality\<close>








subsection \<open>Round trip\<close>















lemma example_round_trip:
  "get_meta_object example_value primitive_containers = example_meta"
  "get_leaf_values example_value primitive_containers
     = Inr [VInt 1, VInt 2, VInt 3, VInt 4, VStr ''x'']"
  "fill_meta_object example_meta [VInt 1, VInt 2, VInt 3, VInt 4, VStr ''x''] True True
     = Inr (VList [VInt 1, VInt 2,
                   VDict [(KStr ''a'', VTuple [VInt 3, VInt 4]), (KStr ''b'', VStr ''x'')]], [])"
  by (simp_all add: example_value_def example_meta_def fully_used_def)

subsection \<open>The order of the leaves of a mapping\<close>















subsection \<open>Shape of the meta object\<close>


















subsection \<open>What \<open>is_type_for\<close> decides\<close>









subsection \<open>\<^verbatim>\<open>flatten_nested_object\<close> returns no listing\<close>

lemma flatten_returns_None:
  "flatten_nested_object v cs ic = Inr r \<Longrightarrow> r = VNone"
  by (subst (asm) flatten_nested_object.simps)
    (auto simp del: flatten_nested_object.simps simp: Let_def split: if_splits sum.splits)

lemma flatten_not_in:
  "\<not> py_in v cs \<Longrightarrow> flatten_nested_object v cs ic = Inr VNone"
  by (subst flatten_nested_object.simps) (simp del: flatten_nested_object.simps add: Let_def)

lemma flatten_default:
  "flatten_nested_object v default_containers ic =
     (if py_in v default_containers then Inl (Exception_unidentified_container TType)
      else Inr VNone)"
proof (cases "py_in v default_containers")
  case False
  with flatten_not_in [of v default_containers ic] show ?thesis
    by (simp del: flatten_nested_object.simps)
next
  case True
  then obtain t where v: "v = VType t"
    by (cases v) (simp_all add: default_containers_def primitive_containers_def)
  have "\<not> isinstance v [TList, TTuple]" "\<not> isinstance v [TDict]" "type_of v = TType"
    using v by (simp_all add: isinstance_def issubclass_def)
  with True show ?thesis
    by (subst flatten_nested_object.simps)
      (simp del: flatten_nested_object.simps add: Let_def)
qed

text \<open>
  C10, as amended. No call of \<open>flatten_nested_object\<close> returns a listing: a call that
  returns, returns \<^verbatim>\<open>None\<close>. It returns \<^verbatim>\<open>None\<close> for every input that is not equal to a
  member of \<open>containers\<close>; with the default containers it raises ``Unidentified container
  type'' for the four class objects themselves and returns \<^verbatim>\<open>None\<close> for everything else.
\<close>

theorem flatten_nested_object_no_listing:
  "(\<forall>r. flatten_nested_object v cs ic = Inr r \<longrightarrow> r = VNone) \<and>
   (\<not> py_in v cs \<longrightarrow> flatten_nested_object v cs ic = Inr VNone) \<and>
   flatten_nested_object v default_containers ic =
     (if py_in v default_containers then Inl (Exception_unidentified_container TType)
      else Inr VNone)"
  using flatten_returns_None [of v cs ic] flatten_not_in [of v cs ic] flatten_default [of v ic]
  by blast

theorem flatten_nested_object_no_listing_witness:
  "\<not> py_in example_value default_containers \<and>
   flatten_nested_object example_value default_containers False = Inr VNone \<and>
   flatten_nested_object example_value default_containers True = Inr VNone \<and>
   py_in (VList [VInt 0]) [VList [VInt 0]] \<and>
   flatten_nested_object (VList [VInt 0]) [VList [VInt 0]] False = Inl (AttributeError TNoneType)"
  using flatten_nested_object_no_listing [of example_value default_containers False]
    flatten_nested_object_no_listing [of example_value default_containers True]
  by (simp add: example_value_def default_containers_def primitive_containers_def
      iteritems_def isinstance_def issubclass_def setitem_def)

text \<open>
  C10 as stated (\<^verbatim>\<open>None\<close> for every input) fails at the class object \<^verbatim>\<open>list\<close>, which is
  \<^verbatim>\<open>in\<close> the default containers and is neither a list, a tuple nor a dict: the call
  raises.
\<close>

theorem flatten_nested_object_raises_counterexample:
  "flatten_nested_object (VType TList) default_containers False
     = Inl (Exception_unidentified_container TType) \<and>
   flatten_nested_object (VType TList) default_containers False \<noteq> Inr VNone"
  by (simp add: default_containers_def primitive_containers_def isinstance_def issubclass_def)

end
